theory Spec2Isabelle
  imports Main
begin

section \<open>Constants and basic data\<close>

text \<open>
  The game of \<^verbatim>\<open>script.js\<close>: a grid of 6 rows of 5 letter tiles, a secret
  \<^verbatim>\<open>targetWord\<close>, and the evaluation of each submitted row. Strings are lists of
  characters; the words of the game are ASCII letters.
\<close>

definition WORD_LENGTH :: nat where
  "WORD_LENGTH = 5"

definition MAX_GUESSES :: nat where
  "MAX_GUESSES = 6"

text \<open>The three marks a tile or a key receives (the strings
  \<^verbatim>\<open>'correct'\<close>, \<^verbatim>\<open>'present'\<close>, \<^verbatim>\<open>'absent'\<close>).\<close>

datatype verdict = Correct | Present | Absent

text \<open>Reading \<^verbatim>\<open>s[i]\<close>: a JavaScript string or array read past its end yields
  \<^verbatim>\<open>undefined\<close>, here \<open>None\<close>.\<close>

definition elemAt :: "'a list \<Rightarrow> nat \<Rightarrow> 'a option" where
  "elemAt xs i = (if i < length xs then Some (xs ! i) else None)"

section \<open>The evaluation of a guess\<close>

text \<open>
  \<^verbatim>\<open>letterCounts\<close> is an object used as a dictionary. Its keys are the values used
  to index it: a letter, or \<^verbatim>\<open>undefined\<close> (\<open>None\<close>) when the index came from a
  read past the end of a string. Its values are numbers, where a decrement of a missing
  entry stores \<^verbatim>\<open>NaN\<close>.
\<close>

datatype jsnum = Num int | NaN

type_synonym counts = "char option \<rightharpoonup> jsnum"

text \<open>\<^verbatim>\<open>letterCounts[letter] = (letterCounts[letter] || 0) + 1\<close>: a missing
  entry, zero and \<^verbatim>\<open>NaN\<close> are falsy and count as 0.\<close>

definition increment :: "counts \<Rightarrow> char option \<Rightarrow> counts" where
  "increment m k =
     m(k \<mapsto> (case m k of
                Some (Num n) \<Rightarrow> (if n = 0 then Num 1 else Num (n + 1))
              | _ \<Rightarrow> Num 1))"

text \<open>\<^verbatim>\<open>letterCounts[k]--\<close>.\<close>

definition decrement :: "counts \<Rightarrow> char option \<Rightarrow> counts" where
  "decrement m k =
     m(k \<mapsto> (case m k of Some (Num n) \<Rightarrow> Num (n - 1) | _ \<Rightarrow> NaN))"

text \<open>\<^verbatim>\<open>letterCounts[k] > 0\<close>: false for a missing entry and for
  \<^verbatim>\<open>NaN\<close>.\<close>

definition positive :: "counts \<Rightarrow> char option \<Rightarrow> bool" where
  "positive m k = (case m k of Some (Num n) \<Rightarrow> 0 < n | _ \<Rightarrow> False)"

text \<open>\<^verbatim>\<open>tempTargetWord.includes(x)\<close>: \<^verbatim>\<open>undefined\<close> is never an element
  of an array of letters.\<close>

definition includesElem :: "string \<Rightarrow> char option \<Rightarrow> bool" where
  "includesElem t k = (case k of None \<Rightarrow> False | Some c \<Rightarrow> c \<in> set t)"

text \<open>The loop over the letters of the target that fills \<^verbatim>\<open>letterCounts\<close>.\<close>

definition letterCounts :: "string \<Rightarrow> counts" where
  "letterCounts t = foldl (\<lambda>m letter. increment m (Some letter)) Map.empty t"

text \<open>
  The state of the two loops is the array \<^verbatim>\<open>evaluation\<close> (\<open>None\<close> is
  \<^verbatim>\<open>null\<close>) and the counts. Each function below is the body of one loop at index
  \<open>i\<close>.
\<close>

definition firstPass :: "string \<Rightarrow> string \<Rightarrow> verdict option list \<times> counts \<Rightarrow> nat
    \<Rightarrow> verdict option list \<times> counts" where
  "firstPass guess t st i =
     (case st of (evaluation, m) \<Rightarrow>
        if elemAt guess i = elemAt t i
        then (evaluation[i := Some Correct], decrement m (elemAt guess i))
        else (evaluation, m))"

definition secondPass :: "string \<Rightarrow> string \<Rightarrow> verdict option list \<times> counts \<Rightarrow> nat
    \<Rightarrow> verdict option list \<times> counts" where
  "secondPass guess t st i =
     (case st of (evaluation, m) \<Rightarrow>
        if evaluation ! i = None
        then (if includesElem t (elemAt guess i) \<and> positive m (elemAt guess i)
              then (evaluation[i := Some Present], decrement m (elemAt guess i))
              else (evaluation[i := Some Absent], m))
        else (evaluation, m))"

text \<open>The array \<^verbatim>\<open>evaluation\<close> and the counts after both loops. The array has
  \<^verbatim>\<open>WORD_LENGTH\<close> entries and the loops run over its indices only.\<close>

definition passes :: "string \<Rightarrow> string \<Rightarrow> verdict option list \<times> counts" where
  "passes guess t =
     foldl (secondPass guess t)
       (foldl (firstPass guess t)
          (replicate WORD_LENGTH None, letterCounts t) [0..<WORD_LENGTH])
       [0..<WORD_LENGTH]"

text \<open>The second loop leaves no \<^verbatim>\<open>null\<close> in \<^verbatim>\<open>evaluation\<close>; the array is
  read as a list of marks (a \<^verbatim>\<open>null\<close> would read as \<open>Absent\<close>, and
  \<open>evaluation_no_null\<close> below shows there is none).\<close>

definition evaluation :: "string \<Rightarrow> string \<Rightarrow> verdict list" where
  "evaluation guess t =
     map (\<lambda>e. case e of Some v \<Rightarrow> v | None \<Rightarrow> Absent) (fst (passes guess t))"

subsection \<open>The two-pass algorithm as the specification words it\<close>

text \<open>
  The specification's algorithm, written on its own terms for words of equal length: a
  count of each letter of the secret; a first pass over the positions that marks the exact
  matches and takes each from its letter's count; a second pass, left to right over the
  positions still unmarked, that marks a letter \<open>Present\<close> and takes one from its count
  while the count is positive, and \<open>Absent\<close> otherwise.
\<close>

definition spec_counts :: "string \<Rightarrow> char \<Rightarrow> int" where
  "spec_counts secret = (\<lambda>c. int (count_list secret c))"

fun spec_pass1 :: "(char \<times> char) list \<Rightarrow> (char \<Rightarrow> int)
    \<Rightarrow> verdict option list \<times> (char \<Rightarrow> int)" where
  "spec_pass1 [] f = ([], f)"
| "spec_pass1 ((g, s) # ps) f =
     (if g = s
      then (case spec_pass1 ps (f(g := f g - 1)) of (vs, f') \<Rightarrow> (Some Correct # vs, f'))
      else (case spec_pass1 ps f of (vs, f') \<Rightarrow> (None # vs, f')))"

fun spec_pass2 :: "(char \<times> verdict option) list \<Rightarrow> (char \<Rightarrow> int)
    \<Rightarrow> verdict list \<times> (char \<Rightarrow> int)" where
  "spec_pass2 [] f = ([], f)"
| "spec_pass2 ((g, Some v) # ps) f =
     (case spec_pass2 ps f of (vs, f') \<Rightarrow> (v # vs, f'))"
| "spec_pass2 ((g, None) # ps) f =
     (if 0 < f g
      then (case spec_pass2 ps (f(g := f g - 1)) of (vs, f') \<Rightarrow> (Present # vs, f'))
      else (case spec_pass2 ps f of (vs, f') \<Rightarrow> (Absent # vs, f')))"

definition spec_evaluate :: "string \<Rightarrow> string \<Rightarrow> verdict list" where
  "spec_evaluate guess secret =
     (case spec_pass1 (zip guess secret) (spec_counts secret) of
        (marks, f) \<Rightarrow> fst (spec_pass2 (zip guess marks) f))"

text \<open>The number of positions of a guess that hold the letter \<open>L\<close> and are marked
  \<open>Correct\<close> or \<open>Present\<close>.\<close>

definition marked :: "char \<Rightarrow> string \<Rightarrow> verdict list \<Rightarrow> nat" where
  "marked L guess vs = length (filter (\<lambda>(g, v). g = L \<and> v \<noteq> Absent) (zip guess vs))"

section \<open>The session\<close>

subsection \<open>Letter case and keys\<close>

text \<open>\<^verbatim>\<open>toLowerCase\<close> and \<^verbatim>\<open>toUpperCase\<close> on ASCII text: the letters change case,
  every other character stays.\<close>

definition toLowerCase :: "string \<Rightarrow> string" where
  "toLowerCase s =
     map (\<lambda>c. case map_of (zip ''ABCDEFGHIJKLMNOPQRSTUVWXYZ'' ''abcdefghijklmnopqrstuvwxyz'') c of
                 Some d \<Rightarrow> d | None \<Rightarrow> c) s"

definition toUpperCase :: "string \<Rightarrow> string" where
  "toUpperCase s =
     map (\<lambda>c. case map_of (zip ''abcdefghijklmnopqrstuvwxyz'' ''ABCDEFGHIJKLMNOPQRSTUVWXYZ'') c of
                 Some d \<Rightarrow> d | None \<Rightarrow> c) s"

text \<open>\<^verbatim>\<open>lowerKey.match(/^[a-z]$/)\<close>: exactly one character, a lower-case letter.\<close>

definition isLetterKey :: "string \<Rightarrow> bool" where
  "isLetterKey k = (case k of [c] \<Rightarrow> c \<in> set ''abcdefghijklmnopqrstuvwxyz'' | _ \<Rightarrow> False)"

definition FALLBACK_WORDS :: "string list" where
  "FALLBACK_WORDS =
     [''APPLE'', ''BEACH'', ''BRAIN'', ''BREAD'', ''CHAIR'', ''CRANE'', ''EARTH'', ''FLOOR'',
      ''GHOST'', ''HEART'', ''HOUSE'', ''JUICE'', ''LIGHT'', ''LUCKY'', ''MONEY'', ''MUSIC'',
      ''NIGHT'', ''OCEAN'', ''PAPER'', ''PARTY'', ''PIZZA'', ''PLANT'', ''POWER'', ''QUIET'',
      ''RADIO'', ''RIVER'', ''SALAD'', ''SHEEP'', ''SMILE'', ''SNAKE'', ''SOUND'', ''SPACE'',
      ''SUGAR'', ''TABLE'', ''TIGER'', ''TRAIN'', ''WATER'', ''WHITE'', ''WOMAN'', ''WORLD'']"

subsection \<open>The random index\<close>

text \<open>
  \<^verbatim>\<open>Math.random()\<close> returns a double that is at least 0 and below 1. Every such
  double is \<open>m / 2 ^ k\<close> for a significand \<open>m\<close> below \<open>2 ^ 53\<close> and a scale \<open>k\<close>
  from 53 to 1074, and every such pair is one of these doubles.
\<close>

type_synonym double01 = "nat \<times> nat"

definition isDouble01 :: "double01 \<Rightarrow> bool" where
  "isDouble01 d = (case d of (m, k) \<Rightarrow> m < 2 ^ 53 \<and> 53 \<le> k \<and> k \<le> 1074)"

text \<open>The number of binary digits of a number.\<close>

fun bitLength :: "nat \<Rightarrow> nat" where
  "bitLength n = (if n = 0 then 0 else Suc (bitLength (n div 2)))"

declare bitLength.simps [simp del]

text \<open>\<open>n / 2 ^ s\<close> rounded to the nearest whole number, a tie to the even one.\<close>

definition roundHalfEven :: "nat \<Rightarrow> nat \<Rightarrow> nat" where
  "roundHalfEven n s =
     (if s = 0 then n
      else (let q = n div 2 ^ s; r = n mod 2 ^ s; half = 2 ^ (s - 1)
            in if half < r \<or> (r = half \<and> odd q) then q + 1 else q))"

text \<open>
  The product \<^verbatim>\<open>c * d\<close> of doubles, for a whole number \<open>c\<close> below \<open>2 ^ 53\<close> and
  \<open>d = m / 2 ^ k\<close>: the exact product \<open>c * m / 2 ^ k\<close> is rounded to 53 significant
  binary digits, to the nearest double and at a tie to the one with an even significand.
  The result is \<open>a / 2 ^ k\<close> for the numerator \<open>a\<close> returned with \<open>k\<close>.
\<close>

definition timesDouble :: "nat \<Rightarrow> double01 \<Rightarrow> nat \<times> nat" where
  "timesDouble c d =
     (case d of (m, k) \<Rightarrow>
        (let n = c * m; s = bitLength n - 53 in (roundHalfEven n s * 2 ^ s, k)))"

text \<open>\<^verbatim>\<open>Math.floor\<close> of \<open>a / 2 ^ k\<close>.\<close>

definition floorDouble :: "nat \<times> nat \<Rightarrow> nat" where
  "floorDouble x = (case x of (a, k) \<Rightarrow> a div 2 ^ k)"

text \<open>\<^verbatim>\<open>Math.floor(Math.random() * FALLBACK_WORDS.length)\<close>, for the double \<open>d\<close> that
  \<^verbatim>\<open>Math.random()\<close> returns.\<close>

definition fallbackIndex :: "double01 \<Rightarrow> nat" where
  "fallbackIndex d = floorDouble (timesDouble (length FALLBACK_WORDS) d)"

subsection \<open>State\<close>

text \<open>
  What the presentation layer is told, in order: a call of \<^verbatim>\<open>showToast\<close> with its
  message, a call of \<^verbatim>\<open>shakeRow\<close> with the row shaken.
\<close>

datatype signal = Toast string | Shake nat

text \<open>
  A callback registered with \<^verbatim>\<open>setTimeout\<close> that touches the state: the flip of the
  tile at one index of an evaluated row, with the letter \<^verbatim>\<open>guess[index]\<close> and the mark
  \<^verbatim>\<open>evaluation[index]\<close> it hands to \<^verbatim>\<open>updateKeyboard\<close>; the call of
  \<^verbatim>\<open>checkWinLoss\<close> with the guess; the call of \<^verbatim>\<open>showPlayAgain\<close>.
\<close>

datatype callback = Flip "char option" verdict | CheckWinLoss string | ShowPlayAgain

text \<open>How a request to the dictionary ends: \<^verbatim>\<open>response.ok\<close>, not
  \<^verbatim>\<open>response.ok\<close>, or \<^verbatim>\<open>fetch\<close> throws.\<close>

datatype dictReply = Accepted | Rejected | Unreachable

text \<open>How the request for a random word ends: with the word \<^verbatim>\<open>data[0]\<close>, or with an
  error, and then the double that \<^verbatim>\<open>Math.random()\<close> returns in the handler.\<close>

datatype wordReply = Fetched string | FetchFailed double01

text \<open>
  The global variables of the script, the part of the page the script reads back (the front
  text of the tiles in the order of \<^verbatim>\<open>grid.children\<close>, the marks in the class list of
  each key by the key's name, whether the Play Again button is in the toast), the
  signals sent so far, and the work in flight: the timer callbacks of each scheduling call in
  the order of their delays, the guesses whose dictionary request is unanswered, and the
  number of unanswered requests for a word.
\<close>

record game =
  targetWord :: string
  currentRow :: nat
  currentCol :: nat
  isGameOver :: bool
  isProcessing :: bool
  grid :: "string list"
  keyboard :: "string \<rightharpoonup> verdict set"
  signals :: "signal list"
  playAgain :: bool
  timers :: "callback list list"
  validations :: "string list"
  wordFetches :: nat

subsection \<open>Initialisation\<close>

definition createGrid :: "string list" where
  "createGrid = replicate (MAX_GUESSES * WORD_LENGTH) []"

definition keys :: "string list" where
  "keys =
     [''q'', ''w'', ''e'', ''r'', ''t'', ''y'', ''u'', ''i'', ''o'', ''p'',
      ''a'', ''s'', ''d'', ''f'', ''g'', ''h'', ''j'', ''k'', ''l'',
      ''enter'', ''z'', ''x'', ''c'', ''v'', ''b'', ''n'', ''m'', ''backspace'']"

definition createKeyboard :: "string \<rightharpoonup> verdict set" where
  "createKeyboard = (\<lambda>k. if k \<in> set keys then Some {} else None)"

text \<open>\<^verbatim>\<open>fetchNewWord\<close> up to its first \<^verbatim>\<open>await\<close>.\<close>

definition fetchNewWord :: "game \<Rightarrow> game" where
  "fetchNewWord s = s\<lparr>isProcessing := True, wordFetches := wordFetches s + 1\<rparr>"

text \<open>\<^verbatim>\<open>fetchNewWord\<close> from the reply on. \<^verbatim>\<open>Math.random()\<close> is at least 0 and
  below 1, where the index is within the list (\<open>fallbackIndex_bound\<close> below).\<close>

definition fetchNewWord_resume :: "wordReply \<Rightarrow> game \<Rightarrow> game" where
  "fetchNewWord_resume reply s =
     (case reply of
        Fetched w \<Rightarrow> s\<lparr>targetWord := toUpperCase w, isProcessing := False\<rparr>
      | FetchFailed d \<Rightarrow>
          s\<lparr>targetWord := FALLBACK_WORDS ! fallbackIndex d, isProcessing := False\<rparr>)"

definition initGame :: "game \<Rightarrow> game" where
  "initGame s =
     fetchNewWord
       (s\<lparr>isGameOver := False, currentRow := 0, currentCol := 0,
          grid := createGrid, keyboard := createKeyboard\<rparr>)"

text \<open>The state when the script has run its declarations, and after the call of
  \<^verbatim>\<open>initGame\<close> that ends it.\<close>

definition pageLoad :: game where
  "pageLoad =
     \<lparr>targetWord = [], currentRow = 0, currentCol = 0, isGameOver = False,
      isProcessing = False, grid = [], keyboard = Map.empty, signals = [],
      playAgain = False, timers = [], validations = [], wordFetches = 0\<rparr>"

definition initial :: game where
  "initial = initGame pageLoad"

subsection \<open>Presentation helpers\<close>

text \<open>\<^verbatim>\<open>showToast\<close> replaces the content of the toast, and with it a Play Again
  button that is there.\<close>

definition showToast :: "string \<Rightarrow> game \<Rightarrow> game" where
  "showToast message s = s\<lparr>signals := signals s @ [Toast message], playAgain := False\<rparr>"

definition shakeRow :: "game \<Rightarrow> game" where
  "shakeRow s = s\<lparr>signals := signals s @ [Shake (currentRow s)]\<rparr>"

definition showPlayAgain :: "game \<Rightarrow> game" where
  "showPlayAgain s = s\<lparr>playAgain := True\<rparr>"

text \<open>\<^verbatim>\<open>getTile(row, col)\<close> is \<^verbatim>\<open>grid.children[row * WORD_LENGTH + col]\<close>; a read
  of a property of a tile that does not exist throws.\<close>

definition tileIndex :: "nat \<Rightarrow> nat \<Rightarrow> nat" where
  "tileIndex row col = row * WORD_LENGTH + col"

text \<open>\<open>None\<close>: \<^verbatim>\<open>getCurrentGuess\<close> throws.\<close>

definition getCurrentGuess :: "game \<Rightarrow> string option" where
  "getCurrentGuess s =
     (if list_all (\<lambda>i. tileIndex (currentRow s) i < length (grid s)) [0..<WORD_LENGTH]
      then Some (toUpperCase
                  (concat (map (\<lambda>i. grid s ! tileIndex (currentRow s) i) [0..<WORD_LENGTH])))
      else None)"

text \<open>
  \<^verbatim>\<open>updateKeyboard(letter, status)\<close> on the class lists of the keys. A
  \<^verbatim>\<open>letter\<close> that is \<^verbatim>\<open>undefined\<close> throws before anything is changed.
\<close>

definition updateKeyboard :: "char option \<Rightarrow> verdict \<Rightarrow> (string \<rightharpoonup> verdict set)
    \<Rightarrow> (string \<rightharpoonup> verdict set)" where
  "updateKeyboard letter status kb =
     (case letter of
        None \<Rightarrow> kb
      | Some l \<Rightarrow>
          (case kb (toLowerCase [l]) of
             None \<Rightarrow> kb
           | Some currentStatus \<Rightarrow>
               if Correct \<in> currentStatus then kb
               else if Present \<in> currentStatus \<and> status = Absent then kb
               else kb(toLowerCase [l] \<mapsto> insert status (currentStatus - {Present, Absent}))))"

subsection \<open>Input\<close>

definition addLetter :: "string \<Rightarrow> game \<Rightarrow> game" where
  "addLetter letter s =
     (if currentCol s < WORD_LENGTH
      then (if tileIndex (currentRow s) (currentCol s) < length (grid s)
            then s\<lparr>grid := (grid s)[tileIndex (currentRow s) (currentCol s) := letter],
                   currentCol := currentCol s + 1\<rparr>
            else s)
      else s)"

definition deleteLetter :: "game \<Rightarrow> game" where
  "deleteLetter s =
     (if 0 < currentCol s
      then (let col = currentCol s - 1 in
            if tileIndex (currentRow s) col < length (grid s)
            then s\<lparr>currentCol := col, grid := (grid s)[tileIndex (currentRow s) col := []]\<rparr>
            else s\<lparr>currentCol := col\<rparr>)
      else s)"

text \<open>\<^verbatim>\<open>submitGuess\<close> up to its \<^verbatim>\<open>await\<close>.\<close>

definition submitGuess :: "game \<Rightarrow> game" where
  "submitGuess s =
     (if currentCol s < WORD_LENGTH
      then showToast ''Not enough letters'' (shakeRow s)
      else (case getCurrentGuess s of
              None \<Rightarrow> s
            | Some guess \<Rightarrow> s\<lparr>isProcessing := True, validations := validations s @ [guess]\<rparr>))"

definition handleKeyPress :: "string \<Rightarrow> game \<Rightarrow> game" where
  "handleKeyPress key s =
     (if isGameOver s \<or> isProcessing s then s
      else (let lowerKey = toLowerCase key in
            if lowerKey = ''enter'' then submitGuess s
            else if lowerKey = ''backspace'' then deleteLetter s
            else if isLetterKey lowerKey then addLetter lowerKey s
            else s))"

subsection \<open>Evaluation of a row and the end of the game\<close>

text \<open>
  \<^verbatim>\<open>evaluateGuess\<close>: the marks are computed at once; one flip per tile of the current
  row (\<^verbatim>\<open>tileRow\<close>, a slice of \<^verbatim>\<open>grid.children\<close>) is scheduled at
  \<^verbatim>\<open>index * 300\<close> ms and \<^verbatim>\<open>checkWinLoss\<close> at \<^verbatim>\<open>WORD_LENGTH * 300\<close> ms.
  The classes and the back text of a tile are written and never read; they are not part of
  the state.
\<close>

definition evaluateGuess :: "string \<Rightarrow> game \<Rightarrow> game" where
  "evaluateGuess guess s =
     (let tileRow = take WORD_LENGTH (drop (currentRow s * WORD_LENGTH) (grid s));
          marks = evaluation guess (targetWord s)
      in s\<lparr>timers := timers s @
              [map (\<lambda>index. Flip (elemAt guess index) (marks ! index)) [0..<length tileRow]
               @ [CheckWinLoss guess]]\<rparr>)"

definition checkWinLoss :: "string \<Rightarrow> game \<Rightarrow> game" where
  "checkWinLoss guess s =
     (if guess = targetWord s
      then (showToast ''You got it!'' s)
             \<lparr>isGameOver := True, timers := timers s @ [[ShowPlayAgain]]\<rparr>
      else if currentRow s = MAX_GUESSES - 1
      then (showToast (''Game Over! The word was '' @ targetWord s) s)
             \<lparr>isGameOver := True, timers := timers s @ [[ShowPlayAgain]]\<rparr>
      else s\<lparr>currentRow := currentRow s + 1, currentCol := 0, isProcessing := False\<rparr>)"

text \<open>\<^verbatim>\<open>submitGuess\<close> from the reply of the dictionary on.\<close>

definition submitGuess_resume :: "dictReply \<Rightarrow> string \<Rightarrow> game \<Rightarrow> game" where
  "submitGuess_resume reply guess s =
     (case reply of
        Rejected \<Rightarrow> (showToast ''Not in word list'' (shakeRow s))\<lparr>isProcessing := False\<rparr>
      | Accepted \<Rightarrow> evaluateGuess guess s
      | Unreachable \<Rightarrow> (showToast ''Error checking word'' s)\<lparr>isProcessing := False\<rparr>)"

definition runCallback :: "callback \<Rightarrow> game \<Rightarrow> game" where
  "runCallback t s =
     (case t of
        Flip letter status \<Rightarrow> s\<lparr>keyboard := updateKeyboard letter status (keyboard s)\<rparr>
      | CheckWinLoss guess \<Rightarrow> checkWinLoss guess s
      | ShowPlayAgain \<Rightarrow> showPlayAgain s)"

subsection \<open>Events\<close>

text \<open>
  The script runs one handler at a time. An event is a key (a \<^verbatim>\<open>keyup\<close> or a click on
  the on-screen keyboard, both of which call \<^verbatim>\<open>handleKeyPress\<close>), the next timer of
  the \<open>k\<close>-th scheduling call in flight, the reply to the \<open>k\<close>-th dictionary request in
  flight, the reply to a word request in flight, or a click on the Play Again button, which
  stays in the toast until \<^verbatim>\<open>showToast\<close> replaces it. The timers of one scheduling
  call fire in the order of their delays; the order between the timers of different calls
  is left open. \<open>step\<close> is \<open>None\<close> for an event that cannot happen in the state.
\<close>

datatype event =
    KeyPress string
  | Timer nat
  | DictionaryReply nat dictReply
  | WordReply wordReply
  | PlayAgainClick

definition without :: "nat \<Rightarrow> 'a list \<Rightarrow> 'a list" where
  "without k xs = take k xs @ drop (Suc k) xs"

definition step :: "event \<Rightarrow> game \<Rightarrow> game option" where
  "step e s =
     (case e of
        KeyPress key \<Rightarrow> Some (handleKeyPress key s)
      | Timer k \<Rightarrow>
          (if k < length (timers s)
           then (case timers s ! k of
                   [] \<Rightarrow> None
                 | t # rest \<Rightarrow>
                     Some (runCallback t
                       (s\<lparr>timers := (if rest = [] then without k (timers s)
                                      else (timers s)[k := rest])\<rparr>)))
           else None)
      | DictionaryReply k reply \<Rightarrow>
          (if k < length (validations s)
           then Some (submitGuess_resume reply (validations s ! k)
                        (s\<lparr>validations := without k (validations s)\<rparr>))
           else None)
      | WordReply reply \<Rightarrow>
          (if 0 < wordFetches s \<and>
              (case reply of Fetched w \<Rightarrow> True | FetchFailed d \<Rightarrow> isDouble01 d)
           then Some (fetchNewWord_resume reply (s\<lparr>wordFetches := wordFetches s - 1\<rparr>))
           else None)
      | PlayAgainClick \<Rightarrow> (if playAgain s then Some (initGame s) else None))"

fun run :: "event list \<Rightarrow> game \<Rightarrow> game option" where
  "run [] s = Some s"
| "run (e # es) s = (case step e s of None \<Rightarrow> None | Some s' \<Rightarrow> run es s')"

section \<open>Notions used in the statements and proofs\<close>

text \<open>The number an entry of \<^verbatim>\<open>letterCounts\<close> stands for where it is used as a
  number (a missing entry and \<^verbatim>\<open>NaN\<close> are falsy and count as 0).\<close>

definition val :: "counts \<Rightarrow> char \<Rightarrow> int" where
  "val m c = (case m (Some c) of Some (Num n) \<Rightarrow> n | _ \<Rightarrow> 0)"

text \<open>The counts of the code and of the specification agree for a target: the code holds
  the specification's number for each letter of the target, and the specification's number
  of any other letter is 0 (the code asks \<^verbatim>\<open>includes\<close> first).\<close>

definition agree :: "string \<Rightarrow> counts \<Rightarrow> (char \<Rightarrow> int) \<Rightarrow> bool" where
  "agree t m f =
     (\<forall>c. (c \<in> set t \<longrightarrow> m (Some c) = Some (Num (f c))) \<and> (c \<notin> set t \<longrightarrow> f c = 0))"

text \<open>The number of positions where guess and secret both hold the letter \<open>L\<close>.\<close>

definition exact :: "char \<Rightarrow> (char \<times> char) list \<Rightarrow> nat" where
  "exact L ps = length (filter (\<lambda>(g, s). g = s \<and> g = L) ps)"

text \<open>A sequence of calls of \<^verbatim>\<open>updateKeyboard\<close>, each with its letter and status.\<close>

definition updates :: "(char option \<times> verdict) list \<Rightarrow> (string \<rightharpoonup> verdict set)
    \<Rightarrow> (string \<rightharpoonup> verdict set)" where
  "updates us kb = foldl (\<lambda>kb u. updateKeyboard (fst u) (snd u) kb) kb us"

text \<open>The mark a key shows, as a rank: none, absent, present, correct.\<close>

definition rank :: "verdict set \<Rightarrow> nat" where
  "rank cs = (if Correct \<in> cs then 3 else if Present \<in> cs then 2
              else if Absent \<in> cs then 1 else 0)"

text \<open>The signals of the two ways a game ends.\<close>

definition isWin :: "signal \<Rightarrow> bool" where
  "isWin sig = (sig = Toast ''You got it!'')"

definition isLoss :: "signal \<Rightarrow> bool" where
  "isLoss sig =
     (case sig of Toast m \<Rightarrow> take 24 m = ''Game Over! The word was '' | Shake r \<Rightarrow> False)"

text \<open>The signals sent while a sequence of events is handled.\<close>

definition emitted :: "event list \<Rightarrow> game \<Rightarrow> signal list option" where
  "emitted evs s =
     (case run evs s of None \<Rightarrow> None
      | Some s' \<Rightarrow> Some (drop (length (signals s)) (signals s')))"

text \<open>A class list that holds at most one of the three marks.\<close>

definition single :: "verdict set \<Rightarrow> bool" where
  "single cs = (cs = {} \<or> cs = {Absent} \<or> cs = {Present} \<or> cs = {Correct})"

text \<open>Typing a word, one key per letter.\<close>

definition typed :: "string \<Rightarrow> event list" where
  "typed w = map (\<lambda>c. KeyPress [c]) w"

text \<open>Two states of a first game whose secret is CRANE: input is open and nothing is
  typed; the row SLATE is typed and not submitted.\<close>

definition ready :: game where
  "ready = initial\<lparr>targetWord := ''CRANE'', isProcessing := False, wordFetches := 0\<rparr>"

definition typedRow :: game where
  "typedRow =
     ready\<lparr>grid := [''s'', ''l'', ''a'', ''t'', ''e''] @ replicate 25 [], currentCol := 5\<rparr>"

text \<open>
  A game won at the first guess, until the Play Again button is shown; then, after two
  clicks on that button, a session in which the first word request is answered, CRANE is
  typed and submitted, the second word request is answered with CRANE while the dictionary
  request is in flight, Enter is pressed once more, and both dictionary requests are
  accepted. The timers of the two evaluations fire in the order of their delays.
\<close>

definition firstGame :: "event list" where
  "firstGame =
     WordReply (Fetched ''crane'') # typed ''crane'' @
     [KeyPress ''Enter'', DictionaryReply 0 Accepted,
      Timer 0, Timer 0, Timer 0, Timer 0, Timer 0, Timer 0, Timer 0]"

definition racySession :: "event list" where
  "racySession =
     WordReply (Fetched ''apple'') # typed ''crane'' @
     [KeyPress ''Enter'', WordReply (Fetched ''crane''), KeyPress ''Enter'',
      DictionaryReply 0 Accepted, DictionaryReply 0 Accepted,
      Timer 0, Timer 1, Timer 0, Timer 1, Timer 0, Timer 1, Timer 0, Timer 1, Timer 0, Timer 1,
      Timer 0, Timer 0]"

text \<open>The number of end-of-game signals sent so far.\<close>

definition terminals :: "game \<Rightarrow> nat" where
  "terminals s = length (filter (\<lambda>x. isWin x \<or> isLoss x) (signals s))"

text \<open>The timers one call of \<^verbatim>\<open>evaluateGuess\<close> leaves in flight: flips, then the call
  of \<^verbatim>\<open>checkWinLoss\<close>.\<close>

fun evalQueue :: "callback list \<Rightarrow> bool" where
  "evalQueue [CheckWinLoss guess] = True"
| "evalQueue (Flip letter status # q) = evalQueue q"
| "evalQueue q = False"

text \<open>
  Nothing is in flight. A session that \<^verbatim>\<open>initGame\<close> starts in such a state passes
  through the phases below, where \<open>n\<close> is the number of end-of-game signals sent before
  the session: the word is being fetched; input is open; one dictionary request is in flight;
  the timers of one evaluation are in flight; the game is over.
\<close>

definition quiet :: "game \<Rightarrow> bool" where
  "quiet s = (timers s = [] \<and> validations s = [] \<and> wordFetches s = 0)"

definition fetching :: "nat \<Rightarrow> game \<Rightarrow> bool" where
  "fetching n s = (wordFetches s = 1 \<and> isProcessing s \<and> \<not> isGameOver s \<and> timers s = [] \<and>
     validations s = [] \<and> terminals s = n)"

definition active :: "nat \<Rightarrow> game \<Rightarrow> bool" where
  "active n s = (wordFetches s = 0 \<and> \<not> isProcessing s \<and> \<not> isGameOver s \<and> timers s = [] \<and>
     validations s = [] \<and> terminals s = n)"

definition validating :: "nat \<Rightarrow> game \<Rightarrow> bool" where
  "validating n s = (wordFetches s = 0 \<and> isProcessing s \<and> \<not> isGameOver s \<and> timers s = [] \<and>
     length (validations s) = 1 \<and> terminals s = n)"

definition evaluating :: "nat \<Rightarrow> game \<Rightarrow> bool" where
  "evaluating n s = (wordFetches s = 0 \<and> isProcessing s \<and> \<not> isGameOver s \<and>
     validations s = [] \<and> (case timers s of [q] \<Rightarrow> evalQueue q | _ \<Rightarrow> False) \<and>
     terminals s = n)"

definition finished :: "nat \<Rightarrow> game \<Rightarrow> bool" where
  "finished n s = (wordFetches s = 0 \<and> isProcessing s \<and> isGameOver s \<and> validations s = [] \<and>
     (timers s = [[ShowPlayAgain]] \<or> timers s = []) \<and> terminals s = n + 1)"

definition orderly :: "nat \<Rightarrow> game \<Rightarrow> bool" where
  "orderly n s = (fetching n s \<or> active n s \<or> validating n s \<or> evaluating n s \<or> finished n s)"

section \<open>The evaluation refines the two-pass algorithm\<close>



lemma increment_eq: "increment m (Some c) = m(Some c \<mapsto> Num (val m c + 1))"
  by (auto simp: increment_def val_def split: option.splits jsnum.splits)

lemma val_increment: "val (increment m (Some x)) c = (if c = x then val m c + 1 else val m c)"
  by (simp add: increment_eq) (simp add: val_def)

lemma increment_other: "c \<noteq> x \<Longrightarrow> increment m (Some x) (Some c) = m (Some c)"
  by (simp add: increment_def)

lemma increment_same: "increment m (Some x) (Some x) = Some (Num (val m x + 1))"
  by (simp add: increment_eq)

lemma fill_counts:
  "foldl (\<lambda>m letter. increment m (Some letter)) m xs (Some c) =
     (if c \<in> set xs then Some (Num (val m c + int (count_list xs c))) else m (Some c))"
proof (induction xs arbitrary: m)
  case Nil
  show ?case by simp
next
  case (Cons x xs)
  have "foldl (\<lambda>m letter. increment m (Some letter)) m (x # xs) (Some c) =
        foldl (\<lambda>m letter. increment m (Some letter)) (increment m (Some x)) xs (Some c)"
    by simp
  also have "\<dots> = (if c \<in> set xs
        then Some (Num (val (increment m (Some x)) c + int (count_list xs c)))
        else increment m (Some x) (Some c))"
    by (rule Cons.IH)
  also have "\<dots> = (if c \<in> set (x # xs)
        then Some (Num (val m c + int (count_list (x # xs) c))) else m (Some c))"
    by (auto simp: val_increment increment_other increment_same count_list_0_iff)
  finally show ?case .
qed

lemma letterCounts_agree: "agree t (letterCounts t) (spec_counts t)"
  by (simp add: agree_def letterCounts_def fill_counts val_def spec_counts_def)

lemma spec_pass1_length: "length (fst (spec_pass1 ps f)) = length ps"
  by (induction ps f rule: spec_pass1.induct) (auto split: prod.splits simp del: fun_upd_apply)

lemma spec_pass2_length: "length (fst (spec_pass2 ps f)) = length ps"
  by (induction ps f rule: spec_pass2.induct) (auto split: prod.splits simp del: fun_upd_apply)

lemma spec_pass1_snoc:
  "spec_pass1 (ps @ [(g, s)]) f =
     (case spec_pass1 ps f of (vs, f') \<Rightarrow>
        if g = s then (vs @ [Some Correct], f'(g := f' g - 1)) else (vs @ [None], f'))"
  by (induction ps f rule: spec_pass1.induct) (auto split: prod.splits simp del: fun_upd_apply)

lemma spec_pass2_snoc:
  "spec_pass2 (ps @ [(g, e)]) f =
     (case spec_pass2 ps f of (vs, f') \<Rightarrow>
        (case e of
           Some v \<Rightarrow> (vs @ [v], f')
         | None \<Rightarrow> if 0 < f' g then (vs @ [Present], f'(g := f' g - 1))
                   else (vs @ [Absent], f')))"
  by (induction ps f rule: spec_pass2.induct) (auto split: prod.splits option.splits simp del: fun_upd_apply)


lemma agree_decrement:
  "agree t m f \<Longrightarrow> c \<in> set t \<Longrightarrow> agree t (decrement m (Some c)) (f(c := f c - 1))"
  by (auto simp: agree_def decrement_def)

lemma agree_positive:
  "agree t m f \<Longrightarrow> (includesElem t (Some c) \<and> positive m (Some c)) = (0 < f c)"
  by (cases "c \<in> set t") (auto simp: agree_def includesElem_def positive_def)

lemma update_at_boundary:
  "length A = n \<Longrightarrow> n < length ev \<Longrightarrow> (A @ drop n ev)[n := x] = (A @ [x]) @ drop (Suc n) ev"
  by (simp add: list_update_append Cons_nth_drop_Suc [symmetric])

lemma keep_at_boundary:
  "n < length ev \<Longrightarrow> A @ drop n ev = (A @ [ev ! n]) @ drop (Suc n) ev"
  by (simp add: Cons_nth_drop_Suc)

lemma nth_at_boundary:
  "length A = n \<Longrightarrow> n < length ev \<Longrightarrow> (A @ drop n ev) ! n = ev ! n"
  by (simp add: nth_append)

lemma zip_take_Suc:
  "n < length xs \<Longrightarrow> n < length ys \<Longrightarrow>
   zip (take (Suc n) xs) (take (Suc n) ys) = zip (take n xs) (take n ys) @ [(xs ! n, ys ! n)]"
  by (simp add: take_Suc_conv_app_nth)

lemma firstPass_run:
  assumes "n \<le> length g" "n \<le> length t" "n \<le> N" "agree t m f"
  shows "\<exists>m'. foldl (firstPass g t) (replicate N None, m) [0..<n] =
           (fst (spec_pass1 (zip (take n g) (take n t)) f) @ drop n (replicate N None), m')
         \<and> agree t m' (snd (spec_pass1 (zip (take n g) (take n t)) f))"
  using assms
proof (induction n)
  case 0
  then show ?case by simp
next
  case (Suc n)
  let ?ev = "replicate N (None :: verdict option)"
  let ?ps = "zip (take n g) (take n t)"
  obtain A f' where sp: "spec_pass1 ?ps f = (A, f')" by (cases "spec_pass1 ?ps f")
  from Suc obtain m' where run: "foldl (firstPass g t) (?ev, m) [0..<n] = (A @ drop n ?ev, m')"
    and ag: "agree t m' f'"
    using sp by auto
  have lenA: "length A = n"
    using spec_pass1_length [of ?ps f] sp Suc.prems by simp
  have n: "n < length g" "n < length t" "n < length ?ev" using Suc.prems by simp_all
  have zs: "zip (take (Suc n) g) (take (Suc n) t) = ?ps @ [(g ! n, t ! n)]"
    using n by (simp add: zip_take_Suc)
  have evn: "?ev ! n = None" using n by simp
  show ?case
  proof (cases "g ! n = t ! n")
    case True
    have "foldl (firstPass g t) (?ev, m) [0..<Suc n] =
          ((A @ [Some Correct]) @ drop (Suc n) ?ev, decrement m' (Some (g ! n)))"
      using n True lenA
      by (simp add: run firstPass_def elemAt_def update_at_boundary del: replicate.simps drop_replicate)
    moreover have "agree t (decrement m' (Some (g ! n))) (f'(g ! n := f' (g ! n) - 1))"
      using ag True n by (intro agree_decrement) simp_all
    ultimately show ?thesis
      using True by (simp add: zs spec_pass1_snoc sp del: fun_upd_apply)
  next
    case False
    have "foldl (firstPass g t) (?ev, m) [0..<Suc n] = ((A @ [None]) @ drop (Suc n) ?ev, m')"
      using n False keep_at_boundary [of n ?ev A] evn
      by (simp add: run firstPass_def elemAt_def del: replicate.simps drop_replicate)
    then show ?thesis
      using False ag by (simp add: zs spec_pass1_snoc sp)
  qed
qed


lemma secondPass_run:
  assumes "n \<le> length g" "n \<le> length ev" "agree t m f"
  shows "\<exists>m'. foldl (secondPass g t) (ev, m) [0..<n] =
           (map Some (fst (spec_pass2 (zip (take n g) (take n ev)) f)) @ drop n ev, m')
         \<and> agree t m' (snd (spec_pass2 (zip (take n g) (take n ev)) f))"
  using assms
proof (induction n)
  case 0
  then show ?case by simp
next
  case (Suc n)
  let ?ps = "zip (take n g) (take n ev)"
  obtain A f' where sp: "spec_pass2 ?ps f = (A, f')" by (cases "spec_pass2 ?ps f")
  from Suc obtain m' where run: "foldl (secondPass g t) (ev, m) [0..<n] = (map Some A @ drop n ev, m')"
    and ag: "agree t m' f'"
    using sp by auto
  have lenA: "length (map Some A) = n"
    using spec_pass2_length [of ?ps f] sp Suc.prems by simp
  have n: "n < length g" "n < length ev" using Suc.prems by simp_all
  have zs: "zip (take (Suc n) g) (take (Suc n) ev) = ?ps @ [(g ! n, ev ! n)]"
    using n by (simp add: zip_take_Suc)
  have cur: "(map Some A @ drop n ev) ! n = ev ! n"
    using lenA n(2) by (rule nth_at_boundary)
  show ?case
  proof (cases "ev ! n")
    case (Some v)
    have "foldl (secondPass g t) (ev, m) [0..<Suc n] = ((map Some A @ [Some v]) @ drop (Suc n) ev, m')"
      using n Some cur keep_at_boundary [of n ev "map Some A"]
      by (simp add: run secondPass_def)
    then show ?thesis
      using Some ag by (simp add: zs spec_pass2_snoc sp)
  next
    case None
    show ?thesis
    proof (cases "0 < f' (g ! n)")
      case True
      have "foldl (secondPass g t) (ev, m) [0..<Suc n] =
            ((map Some A @ [Some Present]) @ drop (Suc n) ev, decrement m' (Some (g ! n)))"
        using n None cur True agree_positive [OF ag, of "g ! n"] update_at_boundary [OF lenA n(2)]
        by (simp add: run secondPass_def elemAt_def)
      moreover have "g ! n \<in> set t"
        using True ag unfolding agree_def by (metis less_irrefl)
      then have "agree t (decrement m' (Some (g ! n))) (f'(g ! n := f' (g ! n) - 1))"
        using ag by (intro agree_decrement)
      ultimately show ?thesis
        using True None by (simp add: zs spec_pass2_snoc sp del: fun_upd_apply)
    next
      case False
      have "foldl (secondPass g t) (ev, m) [0..<Suc n] =
            ((map Some A @ [Some Absent]) @ drop (Suc n) ev, m')"
        using n None cur False agree_positive [OF ag, of "g ! n"] update_at_boundary [OF lenA n(2)]
        by (simp add: run secondPass_def elemAt_def)
      then show ?thesis
        using False None ag by (simp add: zs spec_pass2_snoc sp)
    qed
  qed
qed

lemma passes_spec:
  assumes "length g = WORD_LENGTH" "length t = WORD_LENGTH"
  shows "fst (passes g t) = map Some (spec_evaluate g t)"
proof -
  let ?N = WORD_LENGTH
  obtain marks f1 where sp1: "spec_pass1 (zip g t) (spec_counts t) = (marks, f1)"
    by (cases "spec_pass1 (zip g t) (spec_counts t)")
  have len1: "length marks = ?N"
    using spec_pass1_length [of "zip g t" "spec_counts t"] sp1 assms by simp
  from firstPass_run [of ?N g t ?N "letterCounts t" "spec_counts t"] assms letterCounts_agree [of t]
  obtain m1 where run1: "foldl (firstPass g t) (replicate ?N None, letterCounts t) [0..<?N] = (marks, m1)"
    and ag1: "agree t m1 f1"
    using sp1 by auto
  from secondPass_run [of ?N g marks t m1 f1] assms len1 ag1
  obtain m2 where "foldl (secondPass g t) (marks, m1) [0..<?N] =
      (map Some (fst (spec_pass2 (zip g marks) f1)), m2)"
    by auto
  then show ?thesis
    by (simp add: passes_def run1 spec_evaluate_def sp1)
qed

lemma evaluation_spec:
  assumes "length g = WORD_LENGTH" "length t = WORD_LENGTH"
  shows "evaluation g t = spec_evaluate g t"
  by (simp add: evaluation_def passes_spec [OF assms] comp_def)


lemma exact_le_count: "exact L (zip g s) \<le> count_list s L"
proof (induction s arbitrary: g)
  case Nil
  show ?case by (simp add: exact_def)
next
  case (Cons x s)
  show ?case
  proof (cases g)
    case Nil
    then show ?thesis by (simp add: exact_def)
  next
    case (Cons y g')
    have "exact L (zip g' s) \<le> count_list s L" by (rule Cons.IH)
    then show ?thesis using Cons by (auto simp: exact_def)
  qed
qed

lemma spec_pass1_result:
  "spec_pass1 ps f =
     (map (\<lambda>(g, s). if g = s then Some Correct else None) ps,
      \<lambda>c. f c - int (exact c ps))"
proof (induction ps arbitrary: f)
  case Nil
  show ?case by (simp add: exact_def)
next
  case (Cons p ps)
  obtain g s where p: "p = (g, s)" by (cases p)
  show ?case
    by (auto simp: p Cons.IH exact_def fun_eq_iff)
qed

lemma spec_pass2_marked:
  "length g = length vs \<Longrightarrow> fst (spec_pass2 (zip g (map Some vs)) f) = vs"
  by (induction g vs arbitrary: f rule: list_induct2) (simp_all add: case_prod_beta)

lemma spec_evaluate_same: "spec_evaluate w w = replicate (length w) Correct"
proof -
  have marks: "map (\<lambda>(g, s). if g = s then Some Correct else None) (zip w w) =
        map Some (replicate (length w) Correct)"
    by (simp add: zip_same_conv_map comp_def map_replicate_const)
  have "fst (spec_pass2 (zip w (map Some (replicate (length w) Correct))) f) =
        replicate (length w) Correct" for f
    by (rule spec_pass2_marked) simp
  then show ?thesis
    by (simp only: spec_evaluate_def spec_pass1_result marks prod.case)
qed

lemma spec_pass2_none:
  "\<forall>a \<in> set g. f a \<le> 0 \<Longrightarrow>
   fst (spec_pass2 (zip g (replicate (length g) None)) f) = replicate (length g) Absent"
  by (induction g) (simp_all add: case_prod_beta)

lemma spec_evaluate_disjoint:
  assumes "length g = length s" "set g \<inter> set s = {}"
  shows "spec_evaluate g s = replicate (length g) Absent"
proof -
  have differ: "\<forall>p \<in> set (zip g s). fst p \<noteq> snd p"
  proof
    fix p assume "p \<in> set (zip g s)"
    then have "fst p \<in> set g" "snd p \<in> set s"
      by (metis prod.collapse set_zip_leftD, metis prod.collapse set_zip_rightD)
    with assms(2) show "fst p \<noteq> snd p" by auto
  qed
  have "map (\<lambda>(g, s). if g = s then Some Correct else None) (zip g s) =
        map (\<lambda>p. None) (zip g s)"
    using differ by (intro map_cong) (auto simp: case_prod_beta)
  then have marks: "map (\<lambda>(g, s). if g = s then Some Correct else None) (zip g s) =
        replicate (length g) None"
    using assms(1) by (simp add: map_replicate_const)
  have "exact c (zip g s) = 0" for c
    using differ by (auto simp: exact_def filter_empty_conv)
  then have counts: "(\<lambda>c. spec_counts s c - int (exact c (zip g s))) = spec_counts s"
    by simp
  have "\<forall>a \<in> set g. spec_counts s a \<le> 0"
    using assms(2) by (auto simp: spec_counts_def count_list_0_iff)
  then show ?thesis
    by (simp add: spec_evaluate_def spec_pass1_result marks counts spec_pass2_none)
qed

lemma spec_pass2_bound:
  "0 \<le> f L \<Longrightarrow>
   marked L (map fst qs) (fst (spec_pass2 qs f)) \<le>
     length (filter (\<lambda>(g, e). g = L \<and> e \<noteq> None \<and> e \<noteq> Some Absent) qs) + nat (f L)"
proof (induction qs f rule: spec_pass2.induct)
  case (1 f)
  show ?case by (simp add: marked_def)
next
  case (2 g v ps f)
  then show ?case by (auto simp: marked_def split: prod.splits)
next
  case (3 g ps f)
  show ?case
  proof (cases "0 < f g")
    case True
    have "0 \<le> (f(g := f g - 1)) L" using True 3 by simp
    with 3(1) [OF True] have ih: "marked L (map fst ps) (fst (spec_pass2 ps (f(g := f g - 1)))) \<le>
        length (filter (\<lambda>(g, e). g = L \<and> e \<noteq> None \<and> e \<noteq> Some Absent) ps) + nat ((f(g := f g - 1)) L)"
      by blast
    show ?thesis
    proof (cases "g = L")
      case True
      with ih \<open>0 < f g\<close> show ?thesis
        by (auto simp: marked_def split: prod.splits)
    next
      case False
      with ih \<open>0 < f g\<close> show ?thesis
        by (auto simp: marked_def split: prod.splits)
    qed
  next
    case False
    with 3(2) [OF False] 3(3) show ?thesis
      by (auto simp: marked_def split: prod.splits)
  qed
qed

lemma spec_evaluate_marked:
  assumes "length g = length s"
  shows "marked L g (spec_evaluate g s) \<le> count_list s L"
proof -
  let ?marks = "map (\<lambda>(g, s). if g = s then Some Correct else None) (zip g s)"
  let ?f = "\<lambda>c. spec_counts s c - int (exact c (zip g s))"
  have sp: "spec_pass1 (zip g s) (spec_counts s) = (?marks, ?f)"
    by (rule spec_pass1_result)
  have nonneg: "0 \<le> ?f L"
    using exact_le_count [of L g s] by (simp add: spec_counts_def)
  have fst_zip: "map fst (zip g ?marks) = g"
    using assms by (simp add: map_fst_zip)
  have "length (filter (\<lambda>(g, e). g = L \<and> e \<noteq> None \<and> e \<noteq> Some Absent) (zip g ?marks))
        \<le> exact L (zip g s)"
    using assms
  proof (induction g s rule: list_induct2)
    case Nil
    show ?case by (simp add: exact_def)
  next
    case (Cons x xs y ys)
    then show ?case by (auto simp: exact_def)
  qed
  moreover have "marked L g (spec_evaluate g s) \<le>
      length (filter (\<lambda>(g, e). g = L \<and> e \<noteq> None \<and> e \<noteq> Some Absent) (zip g ?marks)) + nat (?f L)"
    using spec_pass2_bound [where f = ?f and L = L and qs = "zip g ?marks"] nonneg
    by (simp add: spec_evaluate_def sp fst_zip)
  ultimately show ?thesis
    using nonneg by (simp add: spec_counts_def)
qed


subsection \<open>Shape of the result\<close>

lemma firstPass_length:
  "length (fst (foldl (firstPass g t) st is)) = length (fst st)"
  by (induction "is" arbitrary: st) (auto simp: firstPass_def split: prod.splits)

lemma secondPass_fills:
  "n \<le> length (fst st) \<Longrightarrow>
   length (fst (foldl (secondPass g t) st [0..<n])) = length (fst st) \<and>
   (\<forall>i<n. fst (foldl (secondPass g t) st [0..<n]) ! i \<noteq> None) \<and>
   (\<forall>i. n \<le> i \<longrightarrow> fst (foldl (secondPass g t) st [0..<n]) ! i = fst st ! i)"
proof (induction n)
  case 0
  show ?case by simp
next
  case (Suc n)
  obtain ev m where r: "foldl (secondPass g t) st [0..<n] = (ev, m)"
    by (cases "foldl (secondPass g t) st [0..<n]")
  from Suc r have len: "length ev = length (fst st)" and filled: "\<forall>i<n. ev ! i \<noteq> None"
    and rest: "\<forall>i. n \<le> i \<longrightarrow> ev ! i = fst st ! i"
    by auto
  have n: "n < length ev" using Suc.prems len by simp
  have next_step: "foldl (secondPass g t) st [0..<Suc n] = secondPass g t (ev, m) n"
    by (simp add: r)
  show ?case
    unfolding next_step using len filled rest n
    by (auto simp: secondPass_def nth_list_update less_Suc_eq)
qed

lemma evaluation_no_null: "None \<notin> set (fst (passes g t))"
proof -
  let ?st = "foldl (firstPass g t) (replicate WORD_LENGTH None, letterCounts t) [0..<WORD_LENGTH]"
  have len: "length (fst ?st) = WORD_LENGTH"
    by (simp add: firstPass_length)
  from secondPass_fills [of WORD_LENGTH ?st g t] len
  have "length (fst (passes g t)) = WORD_LENGTH"
    and "\<forall>i<WORD_LENGTH. fst (passes g t) ! i \<noteq> None"
    by (simp_all add: passes_def)
  then show ?thesis
    by (auto simp: in_set_conv_nth)
qed

lemma evaluation_length: "length (evaluation g t) = WORD_LENGTH"
proof -
  let ?st = "foldl (firstPass g t) (replicate WORD_LENGTH None, letterCounts t) [0..<WORD_LENGTH]"
  have "length (fst ?st) = WORD_LENGTH"
    by (simp add: firstPass_length)
  with secondPass_fills [of WORD_LENGTH ?st g t] show ?thesis
    by (simp add: evaluation_def passes_def)
qed


section \<open>Claims about the evaluation\<close>





text \<open>
  C9. A word of the configured length evaluated against itself is \<open>Correct\<close> at every
  position; a guess and a secret of the configured length that share no letter evaluate to
  \<open>Absent\<close> at every position. Both are said of the array \<^verbatim>\<open>evaluation\<close> as the two
  loops leave it, every entry written, and of the marks read from it.
\<close>

theorem exact_match_and_no_overlap:
  "(length w = WORD_LENGTH \<longrightarrow>
      fst (passes w w) = replicate WORD_LENGTH (Some Correct) \<and>
      evaluation w w = replicate WORD_LENGTH Correct) \<and>
   (length guess = WORD_LENGTH \<and> length secret = WORD_LENGTH \<and> set guess \<inter> set secret = {}
      \<longrightarrow> fst (passes guess secret) = replicate WORD_LENGTH (Some Absent) \<and>
          evaluation guess secret = replicate WORD_LENGTH Absent)"
proof (intro conjI impI)
  assume w: "length w = WORD_LENGTH"
  then have "spec_evaluate w w = replicate WORD_LENGTH Correct"
    using spec_evaluate_same [of w] by simp
  with w show "fst (passes w w) = replicate WORD_LENGTH (Some Correct)"
    and "evaluation w w = replicate WORD_LENGTH Correct"
    by (simp_all add: passes_spec evaluation_spec)
next
  assume a: "length guess = WORD_LENGTH \<and> length secret = WORD_LENGTH \<and> set guess \<inter> set secret = {}"
  then have "spec_evaluate guess secret = replicate WORD_LENGTH Absent"
    using spec_evaluate_disjoint [of guess secret] by simp
  with a show "fst (passes guess secret) = replicate WORD_LENGTH (Some Absent)"
    and "evaluation guess secret = replicate WORD_LENGTH Absent"
    by (simp_all add: passes_spec evaluation_spec)
qed

theorem exact_match_and_no_overlap_witness:
  "length ''CRANE'' = WORD_LENGTH \<and>
   fst (passes ''CRANE'' ''CRANE'') = replicate WORD_LENGTH (Some Correct) \<and>
   evaluation ''CRANE'' ''CRANE'' = replicate WORD_LENGTH Correct \<and>
   length ''MOIST'' = WORD_LENGTH \<and> set ''CRANE'' \<inter> set ''MOIST'' = {} \<and>
   fst (passes ''CRANE'' ''MOIST'') = replicate WORD_LENGTH (Some Absent) \<and>
   evaluation ''CRANE'' ''MOIST'' = replicate WORD_LENGTH Absent"
proof -
  have c: "length ''CRANE'' = WORD_LENGTH" and m: "length ''MOIST'' = WORD_LENGTH"
    by (simp_all add: WORD_LENGTH_def)
  have d: "set ''CRANE'' \<inter> set ''MOIST'' = {}" by simp
  from exact_match_and_no_overlap [of "''CRANE''" "''CRANE''" "''MOIST''"] c m d
  show ?thesis by blast
qed

text \<open>
  C10. For a guess and a secret of the configured length and every letter \<open>L\<close>, the
  number of positions of the guess that hold \<open>L\<close> and are marked \<open>Correct\<close> or
  \<open>Present\<close> is at most the number of occurrences of \<open>L\<close> in the secret.
\<close>

theorem marks_within_count:
  assumes "length guess = WORD_LENGTH" and "length secret = WORD_LENGTH"
  shows "marked L guess (evaluation guess secret) \<le> count_list secret L"
  using assms spec_evaluate_marked [of guess secret L] by (simp add: evaluation_spec)

theorem marks_within_count_witness:
  "length ''PAPER'' = WORD_LENGTH \<and> length ''APPLE'' = WORD_LENGTH \<and>
   marked CHR ''P'' ''PAPER'' (evaluation ''PAPER'' ''APPLE'') \<le> count_list ''APPLE'' CHR ''P''"
proof -
  have g: "length ''PAPER'' = WORD_LENGTH" and s: "length ''APPLE'' = WORD_LENGTH"
    by (simp_all add: WORD_LENGTH_def)
  from marks_within_count [OF g s, of "CHR ''P''"] g s show ?thesis
    by simp
qed

section \<open>Claims about the keyboard marks\<close>

lemma updateKeyboard_entry:
  assumes "kb key = Some before"
  shows "\<exists>after. updateKeyboard letter status kb key = Some after \<and>
           (Correct \<in> before \<longrightarrow> after = before) \<and>
           (single before \<longrightarrow> single after \<and> rank before \<le> rank after)"
proof (cases letter)
  case None
  then show ?thesis using assms by (simp add: updateKeyboard_def)
next
  case (Some l)
  show ?thesis
  proof (cases "toLowerCase [l] = key")
    case False
    then show ?thesis
      using assms Some by (auto simp: updateKeyboard_def split: option.splits)
  next
    case True
    show ?thesis
      using assms Some True
      by (cases status) (auto simp: updateKeyboard_def single_def rank_def)
  qed
qed

lemma updates_entry:
  assumes "kb key = Some before"
  shows "\<exists>after. updates us kb key = Some after \<and>
           (Correct \<in> before \<longrightarrow> after = before) \<and>
           (single before \<longrightarrow> single after \<and> rank before \<le> rank after)"
  using assms
proof (induction us arbitrary: kb before)
  case Nil
  then show ?case by (simp add: updates_def)
next
  case (Cons u us)
  have "\<exists>after. updateKeyboard (fst u) (snd u) kb key = Some after \<and>
           (Correct \<in> before \<longrightarrow> after = before) \<and>
           (single before \<longrightarrow> single after \<and> rank before \<le> rank after)"
    using Cons.prems by (rule updateKeyboard_entry)
  then obtain mid where mid: "updateKeyboard (fst u) (snd u) kb key = Some mid"
    and c: "Correct \<in> before \<longrightarrow> mid = before"
    and m: "single before \<longrightarrow> single mid \<and> rank before \<le> rank mid"
    by blast
  have "\<exists>after. updates us (updateKeyboard (fst u) (snd u) kb) key = Some after \<and>
           (Correct \<in> mid \<longrightarrow> after = mid) \<and>
           (single mid \<longrightarrow> single after \<and> rank mid \<le> rank after)"
    using mid by (rule Cons.IH)
  then obtain after where a: "updates us (updateKeyboard (fst u) (snd u) kb) key = Some after"
    and c': "Correct \<in> mid \<longrightarrow> after = mid"
    and m': "single mid \<longrightarrow> single after \<and> rank mid \<le> rank after"
    by blast
  have "updates (u # us) kb = updates us (updateKeyboard (fst u) (snd u) kb)"
    by (simp add: updates_def)
  with a c c' m m' show ?case
    by (metis le_trans)
qed

lemma createKeyboard_single: "createKeyboard key = Some cs \<Longrightarrow> single cs"
  by (auto simp: createKeyboard_def single_def split: if_splits)

lemma createKeyboard_dom: "createKeyboard key = Some cs \<Longrightarrow> key \<in> set keys"
  by (auto simp: createKeyboard_def split: if_splits)

lemma fresh_updates_single:
  assumes "updates us createKeyboard key = Some cs"
  shows "single cs"
proof -
  have "key \<in> set keys"
  proof (rule ccontr)
    assume "key \<notin> set keys"
    then have "updates vs createKeyboard key = None" for vs
    proof (induction vs rule: rev_induct)
      case Nil
      then show ?case by (simp add: updates_def createKeyboard_def)
    next
      case (snoc u vs)
      then show ?case
        by (auto simp: updates_def updateKeyboard_def split: option.splits)
    qed
    with assms show False by simp
  qed
  then have start: "createKeyboard key = Some {}"
    by (simp add: createKeyboard_def)
  have "\<exists>after. updates us createKeyboard key = Some after \<and>
           (Correct \<in> {} \<longrightarrow> after = {}) \<and>
           (single {} \<longrightarrow> single after \<and> rank {} \<le> rank after)"
    using start by (rule updates_entry)
  with assms show ?thesis
    by (auto simp: single_def)
qed

lemma single_monotone:
  assumes "kb key = Some before" and "single before"
  shows "\<exists>after. updates us kb key = Some after \<and>
           rank before \<le> rank after \<and>
           (Correct \<in> before \<longrightarrow> after = before) \<and>
           (Present \<in> before \<longrightarrow> after = {Present} \<or> after = {Correct})"
proof -
  have "\<exists>after. updates us kb key = Some after \<and>
           (Correct \<in> before \<longrightarrow> after = before) \<and>
           (single before \<longrightarrow> single after \<and> rank before \<le> rank after)"
    using assms(1) by (rule updates_entry)
  then obtain after where a: "updates us kb key = Some after"
    and c: "Correct \<in> before \<longrightarrow> after = before"
    and m: "single after" "rank before \<le> rank after"
    using assms(2) by blast
  have "Present \<in> before \<longrightarrow> after = {Present} \<or> after = {Correct}"
    using assms(2) m by (auto simp: single_def rank_def split: if_splits)
  with a c m show ?thesis by blast
qed

text \<open>
  C3. Across every sequence of calls of \<^verbatim>\<open>updateKeyboard\<close> on the keyboard of a
  session (created without marks), the mark of a key only moves upwards in the order
  none, absent, present, correct: a key that is \<open>Correct\<close> is left exactly as it is by
  every later update, and a key that is \<open>Present\<close> is afterwards \<open>Present\<close> or
  \<open>Correct\<close>, never \<open>Absent\<close>.
\<close>

theorem keyboard_monotone:
  assumes "updates earlier createKeyboard key = Some before"
  shows "\<exists>after. updates later (updates earlier createKeyboard) key = Some after \<and>
           rank before \<le> rank after \<and>
           (Correct \<in> before \<longrightarrow> after = before) \<and>
           (Present \<in> before \<longrightarrow> after = {Present} \<or> after = {Correct})"
  using assms fresh_updates_single [OF assms] by (rule single_monotone)

theorem keyboard_monotone_witness:
  "updates [(Some CHR ''A'', Absent), (Some CHR ''A'', Present)] createKeyboard ''a'' = Some {Present} \<and>
   (\<exists>after. updates [(Some CHR ''A'', Absent), (Some CHR ''E'', Correct)]
       (updates [(Some CHR ''A'', Absent), (Some CHR ''A'', Present)] createKeyboard) ''a'' = Some after \<and>
     rank {Present} \<le> rank after \<and> (after = {Present} \<or> after = {Correct}))"
proof -
  have h: "updates [(Some CHR ''A'', Absent), (Some CHR ''A'', Present)] createKeyboard ''a'' = Some {Present}"
    by (simp add: updates_def updateKeyboard_def createKeyboard_def keys_def toLowerCase_def)
  from keyboard_monotone [OF h, of "[(Some CHR ''A'', Absent), (Some CHR ''E'', Correct)]"] h
  show ?thesis by simp
qed

section \<open>Claims about the session\<close>

subsection \<open>The fallback word\<close>

lemma FALLBACK_WORDS_length: "length FALLBACK_WORDS = 40"
  by (simp add: FALLBACK_WORDS_def)

lemma FALLBACK_WORDS_five: "w \<in> set FALLBACK_WORDS \<Longrightarrow> length w = WORD_LENGTH"
  by (auto simp: FALLBACK_WORDS_def WORD_LENGTH_def)

lemma FALLBACK_WORDS_distinct: "distinct FALLBACK_WORDS"
  by (simp add: FALLBACK_WORDS_def)

lemma bitLength_bound: "n < 2 ^ b \<Longrightarrow> bitLength n \<le> b"
proof (induction b arbitrary: n)
  case 0
  then show ?case by (simp add: bitLength.simps)
next
  case (Suc b)
  show ?case
  proof (cases "n = 0")
    case True
    then show ?thesis by (simp add: bitLength.simps)
  next
    case False
    from Suc.prems have "n div 2 < 2 ^ b" by simp
    then have "bitLength (n div 2) \<le> b" by (rule Suc.IH)
    with False show ?thesis by (simp add: bitLength.simps [of n])
  qed
qed

text \<open>Rounding adds at most half a unit of the last digit kept.\<close>

lemma roundHalfEven_upper: "roundHalfEven n s * 2 ^ s \<le> n + 2 ^ s div 2"
proof (cases "s = 0")
  case True
  then show ?thesis by (simp add: roundHalfEven_def)
next
  case False
  then obtain t where s: "s = Suc t" by (cases s) auto
  let ?q = "n div 2 ^ s" and ?r = "n mod 2 ^ s"
  have n: "n = ?q * 2 ^ s + ?r" by (rule div_mult_mod_eq [symmetric])
  have half: "(2::nat) ^ s div 2 = 2 ^ t" by (simp add: s)
  have two: "(2::nat) ^ s = 2 ^ t + 2 ^ t" by (simp add: s)
  show ?thesis
  proof (cases "2 ^ t < ?r \<or> (?r = 2 ^ t \<and> odd ?q)")
    case True
    then have r: "2 ^ t \<le> ?r" by auto
    have "roundHalfEven n s = ?q + 1"
      using True False by (simp add: roundHalfEven_def Let_def s)
    then have "roundHalfEven n s * 2 ^ s = ?q * 2 ^ s + 2 ^ s"
      by (simp add: algebra_simps)
    also have "\<dots> \<le> ?q * 2 ^ s + ?r + 2 ^ t"
      using r two by linarith
    also have "\<dots> = n + 2 ^ s div 2"
      using n half by simp
    finally show ?thesis .
  next
    case no: False
    then have "roundHalfEven n s = ?q"
      using False by (simp add: roundHalfEven_def Let_def s)
    then have "roundHalfEven n s * 2 ^ s \<le> n"
      by simp
    then show ?thesis by linarith
  qed
qed

text \<open>The product of a double below 1 and 40 is a double below 40, though the rounding
  may lift it to the next whole number below 40.\<close>

lemma fallbackIndex_bound:
  assumes "isDouble01 d"
  shows "fallbackIndex d < length FALLBACK_WORDS"
proof -
  obtain m k where d: "d = (m, k)" by (cases d)
  from assms d have m: "m < 2 ^ 53" and k: "53 \<le> k" by (simp_all add: isDouble01_def)
  let ?n = "40 * m"
  let ?s = "bitLength ?n - 53"
  have "?n < 2 ^ 59" using m by simp
  then have "bitLength ?n \<le> 59" by (rule bitLength_bound)
  then have s: "?s \<le> 6" by simp
  have "(2::nat) ^ ?s \<le> 2 ^ 6" using s by (intro power_increasing) simp_all
  then have half: "(2::nat) ^ ?s div 2 \<le> 32" by simp
  have "(2::nat) ^ 53 \<le> 2 ^ k" using k by (intro power_increasing) simp_all
  with m have "m + 1 \<le> 2 ^ k" by simp
  then have "40 * (m + 1) \<le> 40 * 2 ^ k" by (rule mult_le_mono2)
  then have n: "?n + 40 \<le> 40 * 2 ^ k" by simp
  have "roundHalfEven ?n ?s * 2 ^ ?s \<le> ?n + 2 ^ ?s div 2" by (rule roundHalfEven_upper)
  with half n have "roundHalfEven ?n ?s * 2 ^ ?s < 40 * 2 ^ k" by linarith
  then have "roundHalfEven ?n ?s * 2 ^ ?s div 2 ^ k < 40"
    by (simp add: less_mult_imp_div_less)
  then show ?thesis
    by (simp add: fallbackIndex_def floorDouble_def timesDouble_def d Let_def
        FALLBACK_WORDS_length)
qed

text \<open>The index at three doubles: 0, 1/2, and the double nearest to 0.7, whose exact
  product with 40 lies below 28 and rounds to 28.\<close>

lemma fallbackIndex_zero: "fallbackIndex (0, 53) = 0"
proof -
  have "bitLength 0 = 0" by (simp add: bitLength.simps)
  then show ?thesis
    by (simp add: fallbackIndex_def floorDouble_def timesDouble_def roundHalfEven_def
        Let_def FALLBACK_WORDS_length)
qed

lemma fallbackIndex_half: "fallbackIndex (4503599627370496, 53) = 20"
proof -
  have "bitLength 180143985094819840 = 58" by (simp add: bitLength.simps)
  then show ?thesis
    by (simp add: fallbackIndex_def floorDouble_def timesDouble_def roundHalfEven_def
        Let_def FALLBACK_WORDS_length)
qed

lemma fallbackIndex_seven_tenths: "fallbackIndex (6305039478318694, 53) = 28"
proof -
  have "bitLength 252201579132747760 = 58" by (simp add: bitLength.simps)
  then show ?thesis
    by (simp add: fallbackIndex_def floorDouble_def timesDouble_def roundHalfEven_def
        Let_def FALLBACK_WORDS_length)
qed

lemma seven_tenths_exact_below: "40 * 6305039478318694 < 28 * (2::nat) ^ 53"
  by simp

text \<open>
  C4. The fallback is not deterministic: two runs in which the word request fails and
  \<^verbatim>\<open>Math.random()\<close> returns 0 in one and 1/2 in the other choose different secrets
  (APPLE and PIZZA).
\<close>

theorem fallback_differs:
  "map_option targetWord (step (WordReply (FetchFailed (0, 53))) initial) \<noteq>
   map_option targetWord (step (WordReply (FetchFailed (4503599627370496, 53))) initial)"
  by (simp add: step_def initial_def initGame_def fetchNewWord_def pageLoad_def
      fetchNewWord_resume_def isDouble01_def fallbackIndex_zero fallbackIndex_half
      FALLBACK_WORDS_def)

text \<open>
  C4, as amended. When the word request fails, the secret is the entry of the fixed fallback
  vocabulary at the index \<^verbatim>\<open>Math.floor(Math.random() * 40)\<close>, computed on doubles: it
  is one of the 40 fallback words, it has \<open>WORD_LENGTH\<close> letters, and the input lock is
  cleared; two runs in which the word request fails choose the same word exactly when
  their draws give the same index.
\<close>

theorem fallback_from_vocabulary:
  assumes "0 < wordFetches s1" and "0 < wordFetches s2"
    and "isDouble01 d1" and "isDouble01 d2"
  shows "\<exists>s1' s2'.
           step (WordReply (FetchFailed d1)) s1 = Some s1' \<and>
           step (WordReply (FetchFailed d2)) s2 = Some s2' \<and>
           fallbackIndex d1 < length FALLBACK_WORDS \<and>
           targetWord s1' = FALLBACK_WORDS ! fallbackIndex d1 \<and>
           targetWord s1' \<in> set FALLBACK_WORDS \<and>
           length (targetWord s1') = WORD_LENGTH \<and>
           \<not> isProcessing s1' \<and>
           (targetWord s1' = targetWord s2') = (fallbackIndex d1 = fallbackIndex d2)"
proof -
  have i1: "fallbackIndex d1 < length FALLBACK_WORDS"
    and i2: "fallbackIndex d2 < length FALLBACK_WORDS"
    using assms(3,4) by (simp_all add: fallbackIndex_bound)
  let ?w1 = "FALLBACK_WORDS ! fallbackIndex d1" and ?w2 = "FALLBACK_WORDS ! fallbackIndex d2"
  have mem: "?w1 \<in> set FALLBACK_WORDS" using i1 by simp
  have same: "(?w1 = ?w2) = (fallbackIndex d1 = fallbackIndex d2)"
    using FALLBACK_WORDS_distinct i1 i2 by (simp add: nth_eq_iff_index_eq)
  show ?thesis
    using assms i1 mem same FALLBACK_WORDS_five [OF mem]
    by (simp add: step_def fetchNewWord_resume_def)
qed

theorem fallback_from_vocabulary_witness:
  "0 < wordFetches initial \<and> isDouble01 (4503599627370496, 53) \<and>
   isDouble01 (6305039478318694, 53) \<and>
   (\<exists>s1' s2'.
      step (WordReply (FetchFailed (4503599627370496, 53))) initial = Some s1' \<and>
      step (WordReply (FetchFailed (6305039478318694, 53))) initial = Some s2' \<and>
      targetWord s1' = ''PIZZA'' \<and> targetWord s1' \<noteq> targetWord s2' \<and> \<not> isProcessing s1')"
proof -
  have f: "0 < wordFetches initial"
    by (simp add: initial_def initGame_def fetchNewWord_def pageLoad_def)
  have a: "isDouble01 (4503599627370496, 53)" and b: "isDouble01 (6305039478318694, 53)"
    by (simp_all add: isDouble01_def)
  have w: "FALLBACK_WORDS ! 20 = ''PIZZA''"
    by (simp add: FALLBACK_WORDS_def)
  from fallback_from_vocabulary [OF f f a b] f a b w show ?thesis
    by (auto simp: fallbackIndex_half fallbackIndex_seven_tenths)
qed

text \<open>At the double nearest to 0.7 the secret is SMILE, the word at index 28.\<close>

lemma fallback_seven_tenths:
  "map_option targetWord (step (WordReply (FetchFailed (6305039478318694, 53))) initial) =
   Some ''SMILE''"
  by (simp add: step_def initial_def initGame_def fetchNewWord_def pageLoad_def
      fetchNewWord_resume_def isDouble01_def fallbackIndex_seven_tenths FALLBACK_WORDS_def)

subsection \<open>Submission\<close>





text \<open>
  C8. A submission in a state that accepts input with the cursor before
  \<open>WORD_LENGTH\<close> sends the shake and "Not enough letters" and changes nothing else:
  cursor, row and tiles stay, no dictionary request is made and no evaluation is scheduled.
\<close>

theorem incomplete_guess_rejected:
  assumes "\<not> isGameOver s" and "\<not> isProcessing s"
    and "currentCol s < WORD_LENGTH"
    and "toLowerCase key = ''enter''"
  shows "step (KeyPress key) s =
         Some (s\<lparr>signals := signals s @ [Shake (currentRow s), Toast ''Not enough letters''],
                  playAgain := False\<rparr>)"
  using assms
  by (simp add: step_def handleKeyPress_def submitGuess_def showToast_def shakeRow_def)

subsection \<open>Bounds of the cursor and the row\<close>

lemma step_bounds:
  assumes "currentCol s \<le> WORD_LENGTH" and "currentRow s \<le> MAX_GUESSES - 1"
    and "step e s = Some s'"
  shows "currentCol s' \<le> WORD_LENGTH \<and> currentRow s' \<le> MAX_GUESSES - 1"
proof (cases e)
  case (KeyPress key)
  then show ?thesis
    using assms
    by (auto simp: step_def handleKeyPress_def submitGuess_def deleteLetter_def addLetter_def
        showToast_def shakeRow_def Let_def split: if_splits option.splits)
next
  case (Timer k)
  then show ?thesis
    using assms
    by (auto simp: step_def runCallback_def checkWinLoss_def showToast_def showPlayAgain_def
        MAX_GUESSES_def split: if_splits list.splits callback.splits)
next
  case (DictionaryReply k reply)
  then show ?thesis
    using assms
    by (auto simp: step_def submitGuess_resume_def evaluateGuess_def showToast_def shakeRow_def
        Let_def split: if_splits dictReply.splits)
next
  case (WordReply reply)
  then show ?thesis
    using assms
    by (auto simp: step_def fetchNewWord_resume_def split: if_splits wordReply.splits)
next
  case PlayAgainClick
  then show ?thesis
    using assms
    by (auto simp: step_def initGame_def fetchNewWord_def split: if_splits)
qed

lemma run_bounds:
  "currentCol s \<le> WORD_LENGTH \<Longrightarrow> currentRow s \<le> MAX_GUESSES - 1 \<Longrightarrow> run evs s = Some s' \<Longrightarrow>
   currentCol s' \<le> WORD_LENGTH \<and> currentRow s' \<le> MAX_GUESSES - 1"
proof (induction evs arbitrary: s)
  case Nil
  then show ?case by simp
next
  case (Cons e evs)
  from Cons.prems(3) obtain m where m: "step e s = Some m" and r: "run evs m = Some s'"
    by (auto split: option.splits)
  from step_bounds [OF Cons.prems(1,2) m] Cons.IH [OF _ _ r] show ?case by blast
qed

lemma initial_bounds: "currentCol initial \<le> WORD_LENGTH \<and> currentRow initial \<le> MAX_GUESSES - 1"
  by (simp add: initial_def initGame_def fetchNewWord_def pageLoad_def)

lemma step_grid:
  assumes "length (grid s) = MAX_GUESSES * WORD_LENGTH" and "step e s = Some s'"
  shows "length (grid s') = MAX_GUESSES * WORD_LENGTH"
proof (cases e)
  case (KeyPress key)
  then show ?thesis
    using assms
    by (auto simp: step_def handleKeyPress_def submitGuess_def deleteLetter_def addLetter_def
        showToast_def shakeRow_def Let_def split: if_splits option.splits)
next
  case (Timer k)
  then show ?thesis
    using assms
    by (auto simp: step_def runCallback_def checkWinLoss_def showToast_def showPlayAgain_def
        split: if_splits list.splits callback.splits)
next
  case (DictionaryReply k reply)
  then show ?thesis
    using assms
    by (auto simp: step_def submitGuess_resume_def evaluateGuess_def showToast_def shakeRow_def
        Let_def split: if_splits dictReply.splits)
next
  case (WordReply reply)
  then show ?thesis
    using assms
    by (auto simp: step_def fetchNewWord_resume_def split: if_splits wordReply.splits)
next
  case PlayAgainClick
  then show ?thesis
    using assms
    by (auto simp: step_def initGame_def fetchNewWord_def createGrid_def split: if_splits)
qed

text \<open>The grid of every reachable state has all its tiles, so that with the bounds below
  the tiles of the current row exist.\<close>

lemma reachable_grid:
  "run evs initial = Some s \<Longrightarrow> length (grid s) = MAX_GUESSES * WORD_LENGTH"
proof -
  have "length (grid s0) = MAX_GUESSES * WORD_LENGTH \<Longrightarrow> run evs s0 = Some s \<Longrightarrow>
        length (grid s) = MAX_GUESSES * WORD_LENGTH" for s0
  proof (induction evs arbitrary: s0)
    case Nil
    then show ?case by simp
  next
    case (Cons e evs)
    from Cons.prems(2) obtain m where m: "step e s0 = Some m" and r: "run evs m = Some s"
      by (auto split: option.splits)
    from step_grid [OF Cons.prems(1) m] Cons.IH r show ?case by blast
  qed
  moreover have "length (grid initial) = MAX_GUESSES * WORD_LENGTH"
    by (simp add: initial_def initGame_def fetchNewWord_def createGrid_def)
  ultimately show "run evs initial = Some s \<Longrightarrow> length (grid s) = MAX_GUESSES * WORD_LENGTH"
    by blast
qed

text \<open>
  C7. In every state reached from the start of the page by any sequence of events, the
  cursor is at most \<open>WORD_LENGTH\<close> and the row is at most \<open>MAX_GUESSES - 1\<close>, and
  every transition from such a state keeps both bounds.
\<close>

theorem turn_bounds:
  assumes "run evs initial = Some s"
  shows "currentCol s \<le> WORD_LENGTH \<and> currentRow s \<le> MAX_GUESSES - 1 \<and>
         (\<forall>e s'. step e s = Some s' \<longrightarrow>
            currentCol s' \<le> WORD_LENGTH \<and> currentRow s' \<le> MAX_GUESSES - 1)"
proof -
  have here: "currentCol s \<le> WORD_LENGTH \<and> currentRow s \<le> MAX_GUESSES - 1"
    using run_bounds [OF _ _ assms] initial_bounds by blast
  then show ?thesis
    using step_bounds by blast
qed


subsection \<open>The keyboard along a session\<close>

lemma updates_append: "updates (us @ vs) kb = updates vs (updates us kb)"
  by (simp add: updates_def)

lemma step_keyboard:
  assumes "step e s = Some s'" and "e \<noteq> PlayAgainClick"
  shows "\<exists>us. keyboard s' = updates us (keyboard s)"
proof (cases e)
  case (KeyPress key)
  then have "keyboard s' = updates [] (keyboard s)"
    using assms
    by (auto simp: step_def handleKeyPress_def submitGuess_def deleteLetter_def addLetter_def
        showToast_def shakeRow_def updates_def Let_def split: if_splits option.splits)
  then show ?thesis ..
next
  case (Timer k)
  from assms(1) Timer obtain t rest where t: "timers s ! k = t # rest" and k: "k < length (timers s)"
    and s': "s' = runCallback t (s\<lparr>timers := (if rest = [] then without k (timers s)
                                      else (timers s)[k := rest])\<rparr>)"
    by (auto simp: step_def split: if_splits list.splits)
  show ?thesis
  proof (cases t)
    case (Flip letter status)
    then have "keyboard s' = updates [(letter, status)] (keyboard s)"
      by (simp add: s' runCallback_def updates_def)
    then show ?thesis ..
  next
    case (CheckWinLoss guess)
    then have "keyboard s' = updates [] (keyboard s)"
      by (simp add: s' runCallback_def checkWinLoss_def showToast_def updates_def)
    then show ?thesis ..
  next
    case ShowPlayAgain
    then have "keyboard s' = updates [] (keyboard s)"
      by (simp add: s' runCallback_def showPlayAgain_def updates_def)
    then show ?thesis ..
  qed
next
  case (DictionaryReply k reply)
  then have "keyboard s' = updates [] (keyboard s)"
    using assms
    by (cases reply) (auto simp: step_def submitGuess_resume_def evaluateGuess_def showToast_def
        shakeRow_def updates_def Let_def split: if_splits)
  then show ?thesis ..
next
  case (WordReply reply)
  then have "keyboard s' = updates [] (keyboard s)"
    using assms
    by (cases reply) (auto simp: step_def fetchNewWord_resume_def updates_def split: if_splits)
  then show ?thesis ..
next
  case PlayAgainClick
  with assms show ?thesis by simp
qed

lemma session_keyboard:
  "run evs s = Some s' \<Longrightarrow> PlayAgainClick \<notin> set evs \<Longrightarrow>
   \<exists>us. keyboard s' = updates us (keyboard s)"
proof (induction evs arbitrary: s)
  case Nil
  then have "keyboard s' = updates [] (keyboard s)" by (simp add: updates_def)
  then show ?case ..
next
  case (Cons e evs)
  from Cons.prems(1) obtain m where m: "step e s = Some m" and r: "run evs m = Some s'"
    by (auto split: option.splits)
  from Cons.prems(2) have e: "e \<noteq> PlayAgainClick" and evs: "PlayAgainClick \<notin> set evs"
    by auto
  from step_keyboard [OF m e] obtain us where us: "keyboard m = updates us (keyboard s)" ..
  from Cons.IH [OF r evs] obtain vs where vs: "keyboard s' = updates vs (keyboard m)" ..
  have "keyboard s' = updates (us @ vs) (keyboard s)"
    by (simp add: us vs updates_append)
  then show ?case ..
qed

lemma reachable_keyboard:
  "run evs s = Some s' \<Longrightarrow> \<exists>us. keyboard s' = updates us (keyboard s) \<or> keyboard s' = updates us createKeyboard"
proof (induction evs arbitrary: s)
  case Nil
  then have "keyboard s' = updates [] (keyboard s)" by (simp add: updates_def)
  then show ?case by blast
next
  case (Cons e evs)
  from Cons.prems(1) obtain m where m: "step e s = Some m" and r: "run evs m = Some s'"
    by (auto split: option.splits)
  from Cons.IH [OF r] obtain vs where
    vs: "keyboard s' = updates vs (keyboard m) \<or> keyboard s' = updates vs createKeyboard"
    by blast
  show ?case
  proof (cases "e = PlayAgainClick")
    case True
    with m have "keyboard m = createKeyboard"
      by (auto simp: step_def initGame_def fetchNewWord_def split: if_splits)
    with vs show ?thesis by auto
  next
    case False
    from step_keyboard [OF m False] obtain us where "keyboard m = updates us (keyboard s)" ..
    with vs have "keyboard s' = updates (us @ vs) (keyboard s) \<or> keyboard s' = updates vs createKeyboard"
      by (auto simp: updates_append)
    then show ?thesis by blast
  qed
qed

text \<open>The same holds of the keyboard along the events of a session: between two
  resets the keyboard changes by calls of \<^verbatim>\<open>updateKeyboard\<close> only.\<close>

lemma session_keyboard_monotone:
  assumes "run evs0 initial = Some s1" and "run evs s1 = Some s2"
    and "PlayAgainClick \<notin> set evs" and "keyboard s1 key = Some before"
  shows "\<exists>after. keyboard s2 key = Some after \<and>
           rank before \<le> rank after \<and>
           (Correct \<in> before \<longrightarrow> after = before) \<and>
           (Present \<in> before \<longrightarrow> after = {Present} \<or> after = {Correct})"
proof -
  have "keyboard initial = createKeyboard"
    by (simp add: initial_def initGame_def fetchNewWord_def)
  with reachable_keyboard [OF assms(1)] obtain us where "keyboard s1 = updates us createKeyboard"
    by auto
  with assms(4) have sb: "single before"
    using fresh_updates_single by simp
  from session_keyboard [OF assms(2,3)] obtain vs where vs: "keyboard s2 = updates vs (keyboard s1)" ..
  have "\<exists>after. updates vs (keyboard s1) key = Some after \<and>
           rank before \<le> rank after \<and>
           (Correct \<in> before \<longrightarrow> after = before) \<and>
           (Present \<in> before \<longrightarrow> after = {Present} \<or> after = {Correct})"
    using assms(4) sb by (rule single_monotone)
  then show ?thesis by (simp add: vs)
qed


subsection \<open>Concrete states\<close>

lemma ready_reachable: "run [WordReply (Fetched ''crane'')] initial = Some ready"
  by (simp add: ready_def step_def initial_def initGame_def fetchNewWord_def pageLoad_def
      fetchNewWord_resume_def toUpperCase_def)

lemma typedRow_reachable: "run (typed ''slate'') ready = Some typedRow"
  by (simp add: typed_def typedRow_def ready_def step_def initial_def initGame_def
      fetchNewWord_def pageLoad_def handleKeyPress_def toLowerCase_def isLetterKey_def
      addLetter_def tileIndex_def createGrid_def WORD_LENGTH_def MAX_GUESSES_def eval_nat_numeral)


theorem incomplete_guess_rejected_witness:
  "\<not> isGameOver ready \<and> \<not> isProcessing ready \<and> currentCol ready < WORD_LENGTH \<and>
   toLowerCase ''enter'' = ''enter'' \<and>
   step (KeyPress ''enter'') ready =
     Some (ready\<lparr>signals := signals ready @ [Shake (currentRow ready), Toast ''Not enough letters''],
                  playAgain := False\<rparr>)"
proof -
  have a: "\<not> isGameOver ready" and b: "\<not> isProcessing ready"
    and c: "currentCol ready < WORD_LENGTH"
    by (simp_all add: ready_def initial_def initGame_def fetchNewWord_def pageLoad_def
        WORD_LENGTH_def)
  have e: "toLowerCase ''enter'' = ''enter''"
    by (simp add: toLowerCase_def)
  from incomplete_guess_rejected [OF a b c e] a b c e
  show ?thesis by simp
qed

theorem turn_bounds_witness:
  "run (WordReply (Fetched ''crane'') # typed ''slate'') initial = Some typedRow \<and>
   currentCol typedRow \<le> WORD_LENGTH \<and> currentRow typedRow \<le> MAX_GUESSES - 1"
proof -
  have r: "run (WordReply (Fetched ''crane'') # typed ''slate'') initial = Some typedRow"
    using ready_reachable typedRow_reachable by (simp split: option.splits)
  from turn_bounds [OF r] r show ?thesis by blast
qed

subsection \<open>The end of the game\<close>

text \<open>One call of \<^verbatim>\<open>checkWinLoss\<close> sends at most one of the two end-of-game signals,
  and a game that is over drops every key.\<close>

lemma checkWinLoss_outcome:
  "signals (checkWinLoss guess s) =
     signals s @
       (if guess = targetWord s then [Toast ''You got it!'']
        else if currentRow s = MAX_GUESSES - 1
        then [Toast (''Game Over! The word was '' @ targetWord s)] else []) \<and>
   isGameOver (checkWinLoss guess s) =
     (isGameOver s \<or> guess = targetWord s \<or> currentRow s = MAX_GUESSES - 1)"
  by (simp add: checkWinLoss_def showToast_def)

lemma game_over_ignores_keys: "isGameOver s \<Longrightarrow> run (map KeyPress ks) s = Some s"
  by (induction ks) (simp_all add: step_def handleKeyPress_def)

lemma evalQueue_flips:
  "evalQueue (map (\<lambda>index. Flip (f index) (v index)) ixs @ [CheckWinLoss guess])"
  by (induction ixs) simp_all

lemma key_orderly:
  assumes "orderly n s"
  shows "orderly n (handleKeyPress key s)"
proof (cases "isGameOver s \<or> isProcessing s")
  case True
  then show ?thesis using assms by (simp add: handleKeyPress_def)
next
  case False
  with assms have a: "active n s"
    by (auto simp: orderly_def fetching_def validating_def evaluating_def finished_def)
  have sub: "active n (submitGuess s) \<or> validating n (submitGuess s)"
    using a
    by (auto simp: submitGuess_def active_def validating_def
        showToast_def shakeRow_def terminals_def isWin_def isLoss_def split: option.splits)
  have del: "active n (deleteLetter s)"
    using a by (auto simp: deleteLetter_def active_def terminals_def Let_def)
  have add: "active n (addLetter l s)" for l
    using a by (auto simp: addLetter_def active_def terminals_def)
  show ?thesis
    using False a sub del add
    by (auto simp: handleKeyPress_def Let_def orderly_def)
qed

lemma callback_orderly:
  assumes "evaluating n s" and "timers s = [t # rest]"
  shows "orderly n (runCallback t (s\<lparr>timers := (if rest = [] then without 0 (timers s)
                                      else (timers s)[0 := rest])\<rparr>))"
proof (cases t)
  case (Flip letter status)
  with assms have "rest \<noteq> []" "evalQueue rest"
    by (auto simp: evaluating_def)
  then have "evaluating n (runCallback t (s\<lparr>timers := (if rest = [] then without 0 (timers s)
                                      else (timers s)[0 := rest])\<rparr>))"
    using assms Flip by (simp add: evaluating_def runCallback_def terminals_def)
  then show ?thesis by (simp add: orderly_def)
next
  case (CheckWinLoss guess)
  with assms have rest: "rest = []"
    by (cases rest) (auto simp: evaluating_def)
  let ?s = "s\<lparr>timers := without 0 (timers s)\<rparr>"
  have q: "timers ?s = []" using assms by (simp add: without_def)
  have "active n (checkWinLoss guess ?s) \<or> finished n (checkWinLoss guess ?s)"
    using assms(1) q
    by (auto simp: checkWinLoss_def active_def finished_def evaluating_def terminals_def
        showToast_def isWin_def isLoss_def)
  then show ?thesis
    using CheckWinLoss rest by (auto simp: orderly_def runCallback_def)
next
  case ShowPlayAgain
  with assms show ?thesis by (simp add: evaluating_def)
qed

lemma step_orderly:
  assumes "orderly n s" and "step e s = Some s'" and "e \<noteq> PlayAgainClick"
  shows "orderly n s'"
proof (cases e)
  case (KeyPress key)
  with assms show ?thesis by (auto simp: step_def key_orderly)
next
  case (Timer k)
  from assms(2) Timer obtain t rest where t: "timers s ! k = t # rest" and k: "k < length (timers s)"
    and s': "s' = runCallback t (s\<lparr>timers := (if rest = [] then without k (timers s)
                                      else (timers s)[k := rest])\<rparr>)"
    by (auto simp: step_def split: if_splits list.splits)
  from k assms(1) consider (ev) "evaluating n s" | (fin) "finished n s" "timers s = [[ShowPlayAgain]]"
    by (auto simp: orderly_def fetching_def active_def validating_def finished_def)
  then show ?thesis
  proof cases
    case ev
    with k t have k0: "k = 0" and q: "timers s = [t # rest]"
      by (auto simp: evaluating_def split: list.splits)
    show ?thesis
      unfolding s' k0 using ev q by (rule callback_orderly)
  next
    case fin
    with k t have "k = 0" "t = ShowPlayAgain" "rest = []" by auto
    with fin have "finished n s'"
      by (simp add: s' finished_def runCallback_def showPlayAgain_def without_def terminals_def)
    then show ?thesis by (simp add: orderly_def)
  qed
next
  case (DictionaryReply k reply)
  from assms(2) DictionaryReply have k: "k < length (validations s)"
    and s': "s' = submitGuess_resume reply (validations s ! k) (s\<lparr>validations := without k (validations s)\<rparr>)"
    by (auto simp: step_def split: if_splits)
  from k assms(1) have v: "validating n s"
    by (auto simp: orderly_def fetching_def active_def evaluating_def finished_def)
  with k have k0: "k = 0" and w: "without k (validations s) = []"
    by (auto simp: validating_def without_def)
  show ?thesis
  proof (cases reply)
    case Accepted
    have "evaluating n s'"
      using v w
      by (simp add: s' Accepted submitGuess_resume_def evaluateGuess_def Let_def evaluating_def
          validating_def evalQueue_flips terminals_def)
    then show ?thesis by (simp add: orderly_def)
  next
    case Rejected
    have "active n s'"
      using v w
      by (simp add: s' Rejected submitGuess_resume_def active_def validating_def
          showToast_def shakeRow_def terminals_def isWin_def isLoss_def)
    then show ?thesis by (simp add: orderly_def)
  next
    case Unreachable
    have "active n s'"
      using v w
      by (simp add: s' Unreachable submitGuess_resume_def active_def validating_def
          showToast_def terminals_def isWin_def isLoss_def)
    then show ?thesis by (simp add: orderly_def)
  qed
next
  case (WordReply reply)
  from assms(2) WordReply have f: "0 < wordFetches s"
    and s': "s' = fetchNewWord_resume reply (s\<lparr>wordFetches := wordFetches s - 1\<rparr>)"
    by (auto simp: step_def split: if_splits)
  from f assms(1) have "fetching n s"
    by (auto simp: orderly_def active_def validating_def evaluating_def finished_def)
  then have "active n s'"
    by (cases reply) (simp_all add: s' fetchNewWord_resume_def active_def fetching_def terminals_def)
  then show ?thesis by (simp add: orderly_def)
next
  case PlayAgainClick
  with assms show ?thesis by simp
qed

lemma run_orderly:
  "orderly n s \<Longrightarrow> run evs s = Some s' \<Longrightarrow> PlayAgainClick \<notin> set evs \<Longrightarrow> orderly n s'"
proof (induction evs arbitrary: s)
  case Nil
  then show ?case by simp
next
  case (Cons e evs)
  from Cons.prems(2) obtain m where m: "step e s = Some m" and r: "run evs m = Some s'"
    by (auto split: option.splits)
  from Cons.prems(3) have e: "e \<noteq> PlayAgainClick" and evs: "PlayAgainClick \<notin> set evs"
    by auto
  from step_orderly [OF Cons.prems(1) m e] have "orderly n m" .
  from Cons.IH [OF this r evs] show ?case .
qed

lemma initGame_orderly: "quiet s \<Longrightarrow> orderly (terminals s) (initGame s)"
  by (simp add: quiet_def orderly_def fetching_def initGame_def fetchNewWord_def terminals_def)

text \<open>
  In a session that starts with nothing in flight and is not reset, the number of
  end-of-game signals sent is 1 when the game is over and 0 before.
\<close>

lemma orderly_session_one_terminal:
  assumes "quiet s" and "run evs (initGame s) = Some s'" and "PlayAgainClick \<notin> set evs"
  shows "terminals s' = terminals s + (if isGameOver s' then 1 else 0)"
proof -
  from run_orderly [OF initGame_orderly [OF assms(1)] assms(2,3)]
  have "orderly (terminals s) s'" .
  then show ?thesis
    by (auto simp: orderly_def fetching_def active_def validating_def evaluating_def finished_def)
qed

lemma first_session_one_terminal:
  assumes "run evs initial = Some s'" and "PlayAgainClick \<notin> set evs"
  shows "terminals s' = (if isGameOver s' then 1 else 0)"
proof -
  have q: "quiet pageLoad" by (simp add: quiet_def pageLoad_def)
  have "terminals pageLoad = 0" by (simp add: terminals_def pageLoad_def)
  with orderly_session_one_terminal [OF q] assms show ?thesis
    by (simp add: initial_def)
qed

text \<open>
  C5. That at most one end-of-game signal is sent per session does not hold of the code on
  these events. After a finished game the Play Again button is clicked twice, so that two
  calls of \<^verbatim>\<open>initGame\<close> leave two word requests in flight. In the session that
  follows no further reset happens; the answer to the second word request clears
  \<^verbatim>\<open>isProcessing\<close> while a dictionary request is in flight, the same row is submitted a
  second time, and \<^verbatim>\<open>checkWinLoss\<close> runs twice: the win signal is sent twice in one
  session.
\<close>

theorem double_reset_two_wins:
  "(case run (firstGame @ [PlayAgainClick, PlayAgainClick]) initial of
      None \<Rightarrow> False
    | Some s0 \<Rightarrow>
        \<not> isGameOver s0 \<and> PlayAgainClick \<notin> set racySession \<and>
        emitted racySession s0 = Some [Toast ''You got it!'', Toast ''You got it!''])"
  by code_simp

end
